theory Spec2Isabelle
  imports Complex_Main "HOL-Library.AList"
begin

section \<open>The sliding-window rate limiter of \<^verbatim>\<open>src/index.ts\<close>\<close>

text \<open>
  The TypeScript class \<^verbatim>\<open>RateLimiter\<close> keeps, per user id, an array of the timestamps of
  the requests it has admitted, in a \<^verbatim>\<open>Map\<close>. A TypeScript \<^verbatim>\<open>number\<close> is an IEEE 754
  double; the model writes a finite double as the real number it denotes. Comparisons of
  doubles are exact, so \<^verbatim>\<open><\<close>, \<^verbatim>\<open><=\<close> and \<^verbatim>\<open>>=\<close> are the ones of \<^typ>\<open>real\<close>. The one
  arithmetic operation of the source, the subtraction in the two pruning loops, rounds its
  result to a double; it is \<open>jsMinus\<close> below. \<^verbatim>\<open>NaN\<close> and infinite arguments are outside
  the model. The length of an array is a \<^typ>\<open>nat\<close>, read as a real where the source
  compares it with \<^verbatim>\<open>maxRequests\<close>.

  A JavaScript \<^verbatim>\<open>Map\<close> keeps its keys in insertion order and the sweep iterates over
  it, so the store is an association list: \<^verbatim>\<open>get\<close> is \<^const>\<open>map_of\<close>, \<^verbatim>\<open>set\<close> is
  \<^const>\<open>AList.update\<close> (an existing key keeps its place, a new key goes to the end),
  \<^verbatim>\<open>delete\<close> is \<^const>\<open>AList.delete\<close> and \<^verbatim>\<open>size\<close> is the length of the list.
  The arrays of the source are mutated in place through the reference the map holds; the
  model writes the changed array back under its key.
\<close>

subsection \<open>Numbers\<close>

text \<open>
  Rounding a real to the nearest integer, a tie going to the even one.
\<close>

definition rne :: "real \<Rightarrow> int" where
  "rne x =
     (let f = \<lfloor>x\<rfloor>; d = x - of_int f
      in if d < 1 / 2 then f else if 1 / 2 < d then f + 1 else if even f then f else f + 1)"

text \<open>
  The doubles of magnitude in \<open>[2^k, 2^(k+1))\<close>, for \<open>- 1022 \<le> k\<close>, are the multiples of
  \<open>2^(k-52)\<close> there (53 significant bits); below \<open>2^(- 1022)\<close> they are the multiples of
  \<open>2^(- 1074)\<close> (subnormal numbers). \<open>qexp a\<close> is the exponent of that spacing at the
  magnitude \<open>a\<close>.
\<close>

definition qexp :: "real \<Rightarrow> int" where
  "qexp a = (if a < 2 powr (- 1022) then - 1074 else \<lfloor>log 2 a\<rfloor> - 52)"

text \<open>
  Rounding to double, to nearest and ties to even, the rounding of every arithmetic
  operation of JavaScript. A double has magnitude below \<open>2^1024\<close>; a result of magnitude
  \<open>2^1024\<close> or more stands for \<^verbatim>\<open>Infinity\<close> or \<^verbatim>\<open>-Infinity\<close>. The model only ever compares
  such a result with \<^verbatim>\<open>timeWindow\<close>, a double, and the comparison comes out as it does
  for the infinite value.
\<close>

definition toDouble :: "real \<Rightarrow> real" where
  "toDouble x = of_int (rne (x / 2 powr (qexp \<bar>x\<bar>))) * 2 powr (qexp \<bar>x\<bar>)"

definition isDouble :: "real \<Rightarrow> bool" where
  "isDouble x \<longleftrightarrow> toDouble x = x \<and> \<bar>x\<bar> < 2 ^ 1024"

text \<open>The subtraction \<^verbatim>\<open>a - b\<close> of two doubles: the exact difference, rounded.\<close>

definition jsMinus :: "real \<Rightarrow> real \<Rightarrow> real" where
  "jsMinus a b = toDouble (a - b)"

subsection \<open>Data\<close>

type_synonym UserRequests = "real list"
type_synonym UserId = string

datatype error = Error string

text \<open>What the instance writes to the console: \<^verbatim>\<open>console.warn\<close> and \<^verbatim>\<open>console.log\<close>.\<close>

datatype console_line =
    Warn string UserId
  | Log string

text \<open>
  The fields of the class; \<open>cleanupInterval\<close> is \<open>None\<close> for \<^verbatim>\<open>null\<close> and holds the
  period of the armed timer otherwise. \<open>console\<close> collects the lines the instance has
  written so far.
\<close>

record RateLimiter =
  timeWindow :: real
  maxRequests :: real
  requests :: "(UserId \<times> UserRequests) list"
  cleanupInterval :: "nat option"
  console :: "console_line list"

definition CLEANUP_FREQUENCY :: nat where
  "CLEANUP_FREQUENCY = 60 * 1000"

subsection \<open>Construction and the timer\<close>

text \<open>
  \<^verbatim>\<open>startCleanupTask\<close> clears the timer the field holds, if any, and always stores a new
  one with the period \<^verbatim>\<open>CLEANUP_FREQUENCY\<close>; \<^verbatim>\<open>stopCleanupTask\<close> clears the timer and sets
  the field to \<^verbatim>\<open>null\<close>, and does nothing when the field is \<^verbatim>\<open>null\<close> already.
\<close>

definition startCleanupTask :: "RateLimiter \<Rightarrow> RateLimiter" where
  "startCleanupTask this = this\<lparr>cleanupInterval := Some CLEANUP_FREQUENCY\<rparr>"

definition stopCleanupTask :: "RateLimiter \<Rightarrow> RateLimiter" where
  "stopCleanupTask this =
     (if cleanupInterval this \<noteq> None then this\<lparr>cleanupInterval := None\<rparr> else this)"

text \<open>
  The constructor throws before it assigns any field; otherwise it stores both arguments
  as given and arms the timer. The field initialisers give the empty map and \<^verbatim>\<open>null\<close>.
\<close>

definition constructor :: "real \<Rightarrow> real \<Rightarrow> error + RateLimiter" where
  "constructor tw mr =
     (if tw \<le> 0 \<or> mr \<le> 0
      then Inl (Error ''timeWindow and maxRequests must be positive numbers.'')
      else Inr (startCleanupTask
             \<lparr>timeWindow = tw, maxRequests = mr, requests = [],
              cleanupInterval = None, console = []\<rparr>))"

subsection \<open>Pruning the front of a log\<close>

text \<open>
  The loop \<^verbatim>\<open>while (i < userRequests.length && now - userRequests[i] >= timeWindow) i++\<close>,
  from the index \<open>i\<close> on; the conjunction guards the read.
\<close>

function scanStale :: "real \<Rightarrow> real \<Rightarrow> UserRequests \<Rightarrow> nat \<Rightarrow> nat" where
  "scanStale now tw userRequests i =
     (if i < length userRequests \<and> jsMinus now (userRequests ! i) \<ge> tw
      then scanStale now tw userRequests (Suc i)
      else i)"
  by pat_completeness auto
termination
  by (relation "measure (\<lambda>(now, tw, userRequests, i). length userRequests - i)") auto

declare scanStale.simps [simp del]

text \<open>The loop from \<open>0\<close>, followed by \<^verbatim>\<open>if (i > 0) userRequests.splice(0, i)\<close>.\<close>

definition pruneFront :: "real \<Rightarrow> real \<Rightarrow> UserRequests \<Rightarrow> UserRequests" where
  "pruneFront now tw userRequests =
     (let i = scanStale now tw userRequests 0
      in if i > 0 then drop i userRequests else userRequests)"

subsection \<open>The admission check\<close>

definition acceptRequest :: "RateLimiter \<Rightarrow> UserId \<Rightarrow> real \<Rightarrow> bool \<times> RateLimiter" where
  "acceptRequest this ident timestamp =
     (if timestamp < 0
      then (False, this\<lparr>console := console this @
              [Warn ''Timestamp cannot be negative. Request rejected for user:'' ident]\<rparr>)
      else case map_of (requests this) ident of
        None \<Rightarrow>
          (True, this\<lparr>requests := AList.update ident [timestamp] (requests this)\<rparr>)
      | Some userRequests \<Rightarrow>
          (let pruned = pruneFront timestamp (timeWindow this) userRequests
           in if real (length pruned) \<ge> maxRequests this
              then (False, this\<lparr>requests := AList.update ident pruned (requests this)\<rparr>)
              else (True, this\<lparr>requests :=
                      AList.update ident (pruned @ [timestamp]) (requests this)\<rparr>)))"

subsection \<open>The sweep\<close>

text \<open>
  One round of the \<^verbatim>\<open>for\<close> loop of \<^verbatim>\<open>cleanupStaleRequests\<close>, on the entry
  \<open>(userId, userRequests)\<close> the iterator yields: prune the array, then delete the key when
  the array is empty.
\<close>

definition cleanupEntry ::
  "real \<Rightarrow> real \<Rightarrow> (UserId \<times> UserRequests) list \<Rightarrow> UserId \<times> UserRequests
     \<Rightarrow> (UserId \<times> UserRequests) list" where
  "cleanupEntry now tw store entry =
     (case entry of (userId, userRequests) \<Rightarrow>
        (let pruned = pruneFront now tw userRequests;
             store' = AList.update userId pruned store
         in if length pruned = 0 then AList.delete userId store' else store'))"

text \<open>
  The sweep visits the entries in the map's order; the only change to the key set during
  the iteration is the deletion of the entry just visited, so every entry present at the
  start is visited once. \<open>now\<close> stands for the value of \<^verbatim>\<open>Date.now()\<close>.
\<close>

definition cleanupStaleRequests :: "RateLimiter \<Rightarrow> real \<Rightarrow> RateLimiter" where
  "cleanupStaleRequests this now =
     this\<lparr>requests := foldl (cleanupEntry now (timeWindow this)) (requests this) (requests this),
          console := console this @ [Log ''RateLimiter cleanup performed.'']\<rparr>"

subsection \<open>Inspection\<close>

definition getCurrentRequestCount :: "RateLimiter \<Rightarrow> UserId \<Rightarrow> nat" where
  "getCurrentRequestCount this ident =
     (case map_of (requests this) ident of
        None \<Rightarrow> 0
      | Some userRequests \<Rightarrow> if length userRequests = 0 then 0 else length userRequests)"

definition getTrackedUserCount :: "RateLimiter \<Rightarrow> nat" where
  "getTrackedUserCount this = length (requests this)"

subsection \<open>Sequences of operations\<close>

text \<open>
  The operations that change an instance after its construction: a call of
  \<^verbatim>\<open>acceptRequest\<close>, one firing of the timer (a sweep at the instant given), and
  \<^verbatim>\<open>stopCleanupTask\<close>. A run may sweep at any point, also after the timer has been
  stopped: the runs of the program are among the runs of the model, and what holds of
  every run of the model holds of them.
\<close>

datatype operation =
    Accept UserId real
  | Sweep real
  | Stop

fun step :: "RateLimiter \<Rightarrow> operation \<Rightarrow> RateLimiter" where
  "step this (Accept ident timestamp) = snd (acceptRequest this ident timestamp)"
| "step this (Sweep now) = cleanupStaleRequests this now"
| "step this Stop = stopCleanupTask this"

definition run :: "RateLimiter \<Rightarrow> operation list \<Rightarrow> RateLimiter" where
  "run this ops = foldl step this ops"

text \<open>The results of a list of \<^verbatim>\<open>acceptRequest\<close> calls made one after the other.\<close>

fun acceptAll :: "RateLimiter \<Rightarrow> (UserId \<times> real) list \<Rightarrow> bool list" where
  "acceptAll this [] = []"
| "acceptAll this ((ident, timestamp) # calls) =
     (case acceptRequest this ident timestamp of
        (ok, this') \<Rightarrow> ok # acceptAll this' calls)"

text \<open>The log stored for a user, empty when the user has no entry.\<close>

definition storedLog :: "RateLimiter \<Rightarrow> UserId \<Rightarrow> UserRequests" where
  "storedLog this ident = (case map_of (requests this) ident of None \<Rightarrow> [] | Some l \<Rightarrow> l)"

text \<open>
  How many timestamps \<open>t\<close> of a log lie inside the window that ends at \<open>now\<close>, that is,
  have \<open>now - t < windowSize\<close>: once with the difference the program computes, once with
  the exact difference of the two numbers.
\<close>

definition windowCount :: "real \<Rightarrow> real \<Rightarrow> UserRequests \<Rightarrow> nat" where
  "windowCount now tw l = length (filter (\<lambda>t. jsMinus now t < tw) l)"

definition exactWindowCount :: "real \<Rightarrow> real \<Rightarrow> UserRequests \<Rightarrow> nat" where
  "exactWindowCount now tw l = length (filter (\<lambda>t. now - t < tw) l)"

text \<open>
  The instance of the usage example, \<^verbatim>\<open>const limiter1 = new RateLimiter(5000, 2)\<close>, as
  the constructor leaves it.
\<close>

definition limiter1 :: RateLimiter where
  "limiter1 = \<lparr>timeWindow = 5000, maxRequests = 2, requests = [],
                cleanupInterval = Some CLEANUP_FREQUENCY, console = []\<rparr>"

subsection \<open>What the sweep is compared with\<close>

text \<open>
  One sweep in the words of the specification: every tracked log loses its leading
  entries \<open>t\<close> with \<open>now - t \<ge> windowSize\<close>, the difference being the one the program
  computes, and an entry whose log is then empty is removed. The order of the remaining entries is the order of the store.
\<close>

definition sweepSpec ::
  "real \<Rightarrow> real \<Rightarrow> (UserId \<times> UserRequests) list \<Rightarrow> (UserId \<times> UserRequests) list" where
  "sweepSpec now tw es =
     filter (\<lambda>(k, l). l \<noteq> []) (map (\<lambda>(k, l). (k, dropWhile (\<lambda>t. jsMinus now t \<ge> tw) l)) es)"

subsection \<open>Invariants\<close>

definition logsNonEmpty :: "RateLimiter \<Rightarrow> bool" where
  "logsNonEmpty this = (\<forall>(k, l) \<in> set (requests this). l \<noteq> [])"

definition logsBounded :: "RateLimiter \<Rightarrow> bool" where
  "logsBounded this = (\<forall>(k, l) \<in> set (requests this). real (length l) \<le> maxRequests this)"

text \<open>
  A well-formed instance: positive configuration, each key at most once in the store (as
  in any \<^verbatim>\<open>Map\<close>), no empty log.
\<close>

definition wellFormed :: "RateLimiter \<Rightarrow> bool" where
  "wellFormed this \<longleftrightarrow>
     0 < timeWindow this \<and> 0 < maxRequests this \<and> distinct (map fst (requests this))
     \<and> logsNonEmpty this"

section \<open>Properties\<close>

subsection \<open>Rounding to double\<close>

lemma rne_of_int [simp]: "rne (of_int n) = n"
  by (simp add: rne_def Let_def powr_neg_numeral)

lemma rne_cases: "rne x = \<lfloor>x\<rfloor> \<or> rne x = \<lfloor>x\<rfloor> + 1"
  by (simp add: rne_def Let_def)

lemma rne_mono: "x \<le> y \<Longrightarrow> rne x \<le> rne y"
proof -
  assume xy: "x \<le> y"
  then have f: "\<lfloor>x\<rfloor> \<le> \<lfloor>y\<rfloor>" by (rule floor_mono)
  show ?thesis
  proof (cases "\<lfloor>x\<rfloor> = \<lfloor>y\<rfloor>")
    case True
    with xy have "x - of_int \<lfloor>x\<rfloor> \<le> y - of_int \<lfloor>y\<rfloor>" by simp
    with True show ?thesis by (auto simp: rne_def Let_def)
  next
    case False
    with f have "\<lfloor>x\<rfloor> + 1 \<le> \<lfloor>y\<rfloor>" by simp
    moreover have "rne x \<le> \<lfloor>x\<rfloor> + 1" using rne_cases [of x] by auto
    moreover have "\<lfloor>y\<rfloor> \<le> rne y" using rne_cases [of y] by auto
    ultimately show ?thesis by linarith
  qed
qed

lemma rne_minus: "rne (- x) = - rne x"
proof (cases "x \<in> \<int>")
  case True
  then obtain n where "x = of_int n" by (auto elim: Ints_cases)
  then show ?thesis by (simp flip: of_int_minus)
next
  case False
  then have "x \<noteq> of_int \<lfloor>x\<rfloor>" by (metis Ints_of_int)
  then have f: "\<lfloor>- x\<rfloor> = - \<lfloor>x\<rfloor> - 1"
    by (simp add: floor_minus ceiling_altdef)
  have e: "even (- \<lfloor>x\<rfloor> - 1) \<longleftrightarrow> odd \<lfloor>x\<rfloor>" by simp
  show ?thesis
    unfolding rne_def Let_def f e by (auto simp: algebra_simps)
qed


lemma qexp_normal:
  assumes "2 powr (of_int k) \<le> a" and "a < 2 powr (of_int (k + 1))" and "- 1022 \<le> k"
  shows "qexp a = k - 52"
proof -
  from assms(3) have "(2::real) powr (- 1022) \<le> 2 powr (of_int k)" by simp
  with assms(1) have n: "\<not> a < 2 powr (- 1022)" by linarith
  from assms(1) have "0 < a" by (rule less_le_trans [rotated]) simp
  with assms(1,2) have "\<lfloor>log 2 a\<rfloor> = k"
    by (simp add: floor_log_eq_powr_iff)
  with n show ?thesis by (simp add: qexp_def)
qed

lemma normal_binade:
  assumes "2 powr (- 1022) \<le> a"
  shows "2 powr (of_int (qexp a + 52)) \<le> a \<and> a < 2 powr (of_int (qexp a + 53))
         \<and> - 1074 \<le> qexp a"
proof -
  have "(0::real) < 2 powr (- 1022)" by simp
  with assms have pos: "0 < a" by linarith
  from assms have q: "qexp a = \<lfloor>log 2 a\<rfloor> - 52" by (simp add: qexp_def)
  from pos have b: "2 powr (of_int \<lfloor>log 2 a\<rfloor>) \<le> a \<and> a < 2 powr (of_int (\<lfloor>log 2 a\<rfloor> + 1))"
    using floor_log_eq_powr_iff [of a 2 "\<lfloor>log 2 a\<rfloor>"] by simp
  have l: "- 1022 \<le> \<lfloor>log 2 a\<rfloor>"
  proof -
    from assms pos have "log 2 (2 powr (- 1022)) \<le> log 2 a" by (subst log_le_cancel_iff) simp_all
    then have "- 1022 \<le> log 2 a" by simp
    then show ?thesis by (simp add: le_floor_iff)
  qed
  have e: "qexp a + 52 = \<lfloor>log 2 a\<rfloor>" "qexp a + 53 = \<lfloor>log 2 a\<rfloor> + 1"
    unfolding q by simp_all
  from l have "- 1074 \<le> qexp a" unfolding q by linarith
  with b show ?thesis unfolding e by blast
qed

lemma qexp_ge: "- 1074 \<le> qexp a"
  using normal_binade [of a] by (cases "a < 2 powr (- 1022)") (simp_all add: qexp_def)

lemma qexp_mono:
  assumes "a \<le> b"
  shows "qexp a \<le> qexp b"
proof (cases "a < 2 powr (- 1022)")
  case True
  then show ?thesis using qexp_ge [of b] by (simp add: qexp_def)
next
  case False
  have "(0::real) < 2 powr (- 1022)" by simp
  with False have pos: "0 < a" by linarith
  with assms have "log 2 a \<le> log 2 b" by (subst log_le_cancel_iff) simp_all
  then have "\<lfloor>log 2 a\<rfloor> \<le> \<lfloor>log 2 b\<rfloor>" by (rule floor_mono)
  with False assms show ?thesis by (simp add: qexp_def)
qed

lemma scaled_less:
  assumes "0 \<le> a"
  shows "a / 2 powr (of_int (qexp a)) < 2 ^ 53"
proof (cases "a < 2 powr (- 1022)")
  case True
  then have "a / 2 powr (- 1074) < 2 powr (- 1022) / 2 powr (- 1074)"
    by (simp add: divide_strict_right_mono)
  also have "\<dots> = 2 powr 52" by (simp flip: powr_diff)
  also have "\<dots> < 2 ^ 53" by simp
  finally show ?thesis using True by (simp add: qexp_def)
next
  case False
  then have "a < 2 powr (of_int (qexp a + 53))" using normal_binade [of a] by simp
  then have "a / 2 powr (of_int (qexp a)) < 2 powr (of_int (qexp a + 53)) / 2 powr (of_int (qexp a))"
    by (simp add: divide_strict_right_mono)
  also have "\<dots> = 2 powr 53" by (simp flip: powr_diff)
  finally show ?thesis by simp
qed

lemma scaled_ge:
  assumes "2 powr (- 1022) \<le> a"
  shows "2 ^ 52 \<le> a / 2 powr (of_int (qexp a))"
proof -
  from assms have "2 powr (of_int (qexp a + 52)) \<le> a" using normal_binade [of a] by simp
  then have "2 powr (of_int (qexp a + 52)) / 2 powr (of_int (qexp a)) \<le> a / 2 powr (of_int (qexp a))"
    by (simp add: divide_right_mono)
  moreover have "2 powr (of_int (qexp a + 52)) / 2 powr (of_int (qexp a)) = (2::real) powr 52"
    by (simp flip: powr_diff)
  ultimately show ?thesis by simp
qed


lemma toDouble_minus: "toDouble (- x) = - toDouble x"
  by (simp add: toDouble_def rne_minus)

lemma toDouble_nonneg:
  assumes "0 \<le> x"
  shows "0 \<le> toDouble x"
proof -
  from assms have "0 \<le> x / 2 powr (of_int (qexp \<bar>x\<bar>))" by simp
  then have "rne 0 \<le> rne (x / 2 powr (of_int (qexp \<bar>x\<bar>)))" by (rule rne_mono)
  moreover have "rne 0 = 0" using rne_of_int [of 0] by simp
  ultimately show ?thesis by (simp add: toDouble_def)
qed

lemma toDouble_upper:
  assumes "0 \<le> x"
  shows "toDouble x \<le> 2 powr (of_int (qexp x + 53))"
proof -
  let ?u = "(2::real) powr (of_int (qexp x))"
  from assms have "x / ?u \<le> of_int (2 ^ 53)" using scaled_less [of x] by simp
  then have "rne (x / ?u) \<le> rne (of_int (2 ^ 53))" by (rule rne_mono)
  then have "rne (x / ?u) \<le> 2 ^ 53" by (simp only: rne_of_int)
  then have "real_of_int (rne (x / ?u)) \<le> 2 powr 53" by (simp add: of_int_le_iff [symmetric] del: of_int_le_iff)
  then have a: "real_of_int (rne (x / ?u)) * ?u \<le> 2 powr 53 * ?u"
    by (rule mult_right_mono) simp
  have e: "2 powr 53 * ?u = 2 powr (of_int (qexp x + 53))"
    by (simp add: powr_add add.commute)
  from assms have t: "toDouble x = real_of_int (rne (x / ?u)) * ?u"
    by (simp add: toDouble_def)
  from a show ?thesis unfolding t e .
qed

lemma toDouble_lower:
  assumes "2 powr (- 1022) \<le> x"
  shows "2 powr (of_int (qexp x + 52)) \<le> toDouble x"
proof -
  let ?u = "(2::real) powr (of_int (qexp x))"
  have "(0::real) < 2 powr (- 1022)" by simp
  with assms have pos: "0 \<le> x" by linarith
  from assms have "of_int (2 ^ 52) \<le> x / ?u" using scaled_ge [of x] by simp
  then have "rne (of_int (2 ^ 52)) \<le> rne (x / ?u)" by (rule rne_mono)
  then have "2 ^ 52 \<le> rne (x / ?u)" by (simp only: rne_of_int)
  then have "2 powr 52 \<le> real_of_int (rne (x / ?u))" by (simp add: of_int_le_iff [symmetric] del: of_int_le_iff)
  then have a: "2 powr 52 * ?u \<le> real_of_int (rne (x / ?u)) * ?u"
    by (rule mult_right_mono) simp
  have e: "2 powr 52 * ?u = 2 powr (of_int (qexp x + 52))"
    by (simp add: powr_add add.commute)
  from pos have t: "toDouble x = real_of_int (rne (x / ?u)) * ?u"
    by (simp add: toDouble_def)
  from a show ?thesis unfolding t e .
qed

lemma toDouble_mono_nonneg:
  assumes "0 \<le> x" and "x \<le> y"
  shows "toDouble x \<le> toDouble y"
proof (cases "qexp x = qexp y")
  case True
  let ?u = "(2::real) powr (of_int (qexp y))"
  from assms(2) have "x / ?u \<le> y / ?u" by (simp add: divide_right_mono)
  then have "rne (x / ?u) \<le> rne (y / ?u)" by (rule rne_mono)
  then have a: "real_of_int (rne (x / ?u)) * ?u \<le> real_of_int (rne (y / ?u)) * ?u"
    by (intro mult_right_mono) simp_all
  from assms True have t: "toDouble x = real_of_int (rne (x / ?u)) * ?u"
    "toDouble y = real_of_int (rne (y / ?u)) * ?u"
    by (simp_all add: toDouble_def)
  from a show ?thesis unfolding t .
next
  case False
  with assms(2) have less: "qexp x + 1 \<le> qexp y" using qexp_mono [of x y] by simp
  have y: "2 powr (- 1022) \<le> y"
  proof (rule ccontr)
    assume "\<not> 2 powr (- 1022) \<le> y"
    then have "qexp y = - 1074" by (simp add: qexp_def)
    with less qexp_ge [of x] show False by simp
  qed
  have "toDouble x \<le> 2 powr (of_int (qexp x + 53))" using assms(1) by (rule toDouble_upper)
  also from less have "\<dots> \<le> 2 powr (of_int (qexp y + 52))" by simp
  also have "\<dots> \<le> toDouble y" using y by (rule toDouble_lower)
  finally show ?thesis .
qed

lemma toDouble_mono:
  assumes "x \<le> y"
  shows "toDouble x \<le> toDouble y"
proof (cases "0 \<le> x")
  case True
  then show ?thesis using assms by (rule toDouble_mono_nonneg)
next
  case x: False
  show ?thesis
  proof (cases "0 \<le> y")
    case True
    from x have "0 \<le> toDouble (- x)" by (intro toDouble_nonneg) simp
    then have "toDouble x \<le> 0" by (simp add: toDouble_minus)
    also from True have "0 \<le> toDouble y" by (rule toDouble_nonneg)
    finally show ?thesis .
  next
    case False
    with assms have "toDouble (- y) \<le> toDouble (- x)"
      by (intro toDouble_mono_nonneg) simp_all
    then show ?thesis by (simp add: toDouble_minus)
  qed
qed


lemma toDouble_binade:
  assumes "2 powr (of_int k) \<le> \<bar>x\<bar>" and "\<bar>x\<bar> < 2 powr (of_int (k + 1))" and "- 1022 \<le> k"
  shows "toDouble x = of_int (rne (x / 2 powr (of_int (k - 52)))) * 2 powr (of_int (k - 52))"
  using qexp_normal [OF assms] by (simp add: toDouble_def)

lemma toDouble_exact:
  assumes "x / 2 powr (of_int (qexp \<bar>x\<bar>)) \<in> \<int>"
  shows "toDouble x = x"
proof -
  from assms obtain n where n: "x / 2 powr (of_int (qexp \<bar>x\<bar>)) = of_int n"
    by (auto elim: Ints_cases)
  then have "toDouble x = x / 2 powr (of_int (qexp \<bar>x\<bar>)) * 2 powr (of_int (qexp \<bar>x\<bar>))"
    by (simp add: toDouble_def)
  then show ?thesis by simp
qed

lemma toDouble_int:
  assumes "x \<in> \<int>" and "\<bar>x\<bar> \<le> 2 ^ 53"
  shows "toDouble x = x"
proof (cases "x = 0")
  case True
  then show ?thesis using rne_of_int [of 0] by (simp add: toDouble_def)
next
  case False
  from assms(1) obtain n where n: "x = of_int n" by (auto elim: Ints_cases)
  with False have "1 \<le> \<bar>n\<bar>" by simp
  then have one: "1 \<le> \<bar>x\<bar>" unfolding n by (simp flip: of_int_abs)
  let ?q = "qexp \<bar>x\<bar>"
  have "(2::real) powr (- 1022) \<le> 2 powr 0" by (subst powr_le_cancel_iff) simp_all
  with one have "2 powr (- 1022) \<le> \<bar>x\<bar>" by simp
  then have b: "2 powr (of_int (?q + 52)) \<le> \<bar>x\<bar>" "\<bar>x\<bar> < 2 powr (of_int (?q + 53))"
    using normal_binade [of "\<bar>x\<bar>"] by simp_all
  from b(1) assms(2) have "2 powr (of_int (?q + 52)) \<le> (2::real) powr (of_int 53)" by simp
  then have "real_of_int (?q + 52) \<le> real_of_int 53"
    by (subst (asm) powr_le_cancel_iff) simp_all
  then have q1: "?q \<le> 1" by linarith
  show ?thesis
  proof (cases "?q \<le> 0")
    case True
    then have "(2::real) powr (of_int ?q) = inverse (2 ^ nat (- ?q))"
      by (cases "?q = 0") (simp_all add: powr_real_of_int)
    then have "x / 2 powr (of_int ?q) = of_int (n * 2 ^ nat (- ?q))"
      unfolding n by (simp add: field_simps)
    then have "x / 2 powr (of_int ?q) \<in> \<int>" by (simp only: Ints_of_int)
    then show ?thesis by (rule toDouble_exact)
  next
    case False
    with q1 have q: "?q = 1" by simp
    with b(1) have "2 ^ 53 \<le> \<bar>x\<bar>" by simp
    with assms(2) have "\<bar>x\<bar> = 2 ^ 53" by simp
    then have "\<bar>n\<bar> = 2 ^ 53" unfolding n by (simp flip: of_int_abs add: of_int_eq_iff [symmetric] del: of_int_eq_iff)
    then have "even \<bar>n\<bar>" by simp
    then have "even n" by simp
    then have "real_of_int (n div 2) = real_of_int n / 2"
      using real_of_int_div [of 2 n] by simp
    moreover from q have "(2::real) powr (of_int ?q) = 2" by simp
    ultimately have "x / 2 powr (of_int ?q) = of_int (n div 2)"
      by (simp add: n)
    then have "x / 2 powr (of_int ?q) \<in> \<int>" by (simp only: Ints_of_int)
    then show ?thesis by (rule toDouble_exact)
  qed
qed

lemma isDouble_int: "x \<in> \<int> \<Longrightarrow> \<bar>x\<bar> \<le> 2 ^ 53 \<Longrightarrow> isDouble x"
proof -
  assume x: "x \<in> \<int>" "\<bar>x\<bar> \<le> 2 ^ 53"
  have "(2::real) ^ 53 < 2 ^ 1024" by (rule power_strict_increasing) simp_all
  with x show ?thesis by (simp add: isDouble_def toDouble_int)
qed

text \<open>The subtraction is exact when the difference is an integer of magnitude up to \<open>2^53\<close>.\<close>

lemma jsMinus_int:
  "a - b \<in> \<int> \<Longrightarrow> \<bar>a - b\<bar> \<le> 2 ^ 53 \<Longrightarrow> jsMinus a b = a - b"
  by (simp add: jsMinus_def toDouble_int)


text \<open>A difference of at least a double \<open>w\<close> is still at least \<open>w\<close> after rounding.\<close>

lemma jsMinus_ge:
  assumes "isDouble w" and "w \<le> a - b"
  shows "w \<le> jsMinus a b"
proof -
  from assms(2) have "toDouble w \<le> toDouble (a - b)" by (rule toDouble_mono)
  with assms(1) show ?thesis by (simp add: jsMinus_def isDouble_def)
qed


subsection \<open>The pruning loop\<close>

lemma scanStale_drop:
  "i \<le> length l \<Longrightarrow>
   drop (scanStale now tw l i) l = dropWhile (\<lambda>t. jsMinus now t \<ge> tw) (drop i l)"
proof (induction now tw l i rule: scanStale.induct)
  case (1 now tw l i)
  show ?case
  proof (cases "i < length l")
    case True
    then have d: "drop i l = l ! i # drop (Suc i) l"
      by (simp add: Cons_nth_drop_Suc)
    show ?thesis
    proof (cases "jsMinus now (l ! i) \<ge> tw")
      case stale: True
      with True "1.IH" have "drop (scanStale now tw l (Suc i)) l
          = dropWhile (\<lambda>t. jsMinus now t \<ge> tw) (drop (Suc i) l)"
        by simp
      with True stale d show ?thesis
        by (subst scanStale.simps) simp
    next
      case False
      with True d show ?thesis
        by (subst scanStale.simps) simp
    qed
  next
    case False
    with "1.prems" show ?thesis
      by (subst scanStale.simps) simp
  qed
qed

lemma pruneFront_dropWhile:
  "pruneFront now tw l = dropWhile (\<lambda>t. jsMinus now t \<ge> tw) l"
proof -
  have "drop (scanStale now tw l 0) l = dropWhile (\<lambda>t. jsMinus now t \<ge> tw) l"
    using scanStale_drop [of 0 l now tw] by simp
  then show ?thesis
    by (cases "scanStale now tw l 0 = 0") (simp_all add: pruneFront_def Let_def)
qed


lemma length_pruneFront: "length (pruneFront now tw l) \<le> length l"
  by (simp add: pruneFront_dropWhile length_dropWhile_le)



lemma windowCount_le_length:
  "windowCount now tw l \<le> length l \<and> exactWindowCount now tw l \<le> length l"
  by (simp add: windowCount_def exactWindowCount_def)

subsection \<open>The store as an association list\<close>

lemma set_update_cases:
  "(k', l') \<in> set (AList.update k v al) \<Longrightarrow> (k', l') = (k, v) \<or> (k', l') \<in> set al"
  by (induction al) (auto split: if_splits)

lemma update_absent:
  "map_of al k = None \<Longrightarrow> AList.update k v al = al @ [(k, v)]"
  by (induction al) (auto split: if_splits)

lemma update_middle:
  "k \<notin> fst ` set pre \<Longrightarrow> AList.update k v (pre @ (k, l) # post) = pre @ (k, v) # post"
  by (induction pre) auto

lemma delete_middle:
  "k \<notin> fst ` set pre \<Longrightarrow> k \<notin> fst ` set post \<Longrightarrow>
   AList.delete k (pre @ (k, v) # post) = pre @ post"
  by (induction pre) (auto simp: AList.delete_id)

subsection \<open>Integers among the reals\<close>

lemma Ints_less_Suc:
  fixes N :: real
  assumes "N \<in> \<int>" and "real n < N"
  shows "real n + 1 \<le> N"
proof -
  from assms(1) obtain z :: int where z: "N = of_int z"
    by (auto elim: Ints_cases)
  with assms(2) have "int n < z" by linarith
  then have "int n + 1 \<le> z" by simp
  with z show ?thesis by linarith
qed

lemma Ints_pos_ge_1:
  fixes N :: real
  assumes "N \<in> \<int>" and "0 < N"
  shows "1 \<le> N"
  using Ints_less_Suc [OF assms(1), of 0] assms(2) by simp

subsection \<open>The constructor and the admission check, unfolded\<close>

lemma constructor_Inr:
  "constructor tw mr = Inr s \<Longrightarrow>
   0 < tw \<and> 0 < mr \<and> timeWindow s = tw \<and> maxRequests s = mr \<and> requests s = []
   \<and> cleanupInterval s = Some CLEANUP_FREQUENCY \<and> console s = []"
  by (auto simp: constructor_def startCleanupTask_def split: if_splits)

lemma constructor_limiter1: "constructor 5000 2 = Inr limiter1"
  by (simp add: constructor_def startCleanupTask_def limiter1_def)

text \<open>The admission check with the loop replaced by what it computes.\<close>

lemma acceptRequest_dropWhile:
  "acceptRequest this ident timestamp =
     (if timestamp < 0
      then (False, this\<lparr>console := console this @
              [Warn ''Timestamp cannot be negative. Request rejected for user:'' ident]\<rparr>)
      else case map_of (requests this) ident of
        None \<Rightarrow>
          (True, this\<lparr>requests := AList.update ident [timestamp] (requests this)\<rparr>)
      | Some userRequests \<Rightarrow>
          (let pruned = dropWhile (\<lambda>t. jsMinus timestamp t \<ge> timeWindow this) userRequests
           in if real (length pruned) \<ge> maxRequests this
              then (False, this\<lparr>requests := AList.update ident pruned (requests this)\<rparr>)
              else (True, this\<lparr>requests :=
                      AList.update ident (pruned @ [timestamp]) (requests this)\<rparr>)))"
  by (simp add: acceptRequest_def pruneFront_dropWhile split: option.split)

subsection \<open>The configuration never changes\<close>

lemma acceptRequest_config:
  "timeWindow (snd (acceptRequest this ident ts)) = timeWindow this
   \<and> maxRequests (snd (acceptRequest this ident ts)) = maxRequests this"
  by (simp add: acceptRequest_def Let_def split: option.split)

lemma step_config:
  "timeWindow (step this x) = timeWindow this \<and> maxRequests (step this x) = maxRequests this"
  by (cases x) (simp_all add: acceptRequest_config cleanupStaleRequests_def stopCleanupTask_def)

lemma run_config:
  "timeWindow (run this ops) = timeWindow this \<and> maxRequests (run this ops) = maxRequests this"
  unfolding run_def by (induction ops arbitrary: this) (simp_all add: step_config)

lemma run_snoc: "run this (ops @ [x]) = step (run this ops) x"
  by (simp add: run_def)

subsection \<open>Each key is stored once\<close>

lemma acceptRequest_distinct:
  "distinct (map fst (requests this)) \<Longrightarrow>
   distinct (map fst (requests (snd (acceptRequest this ident ts))))"
  by (simp add: acceptRequest_def Let_def distinct_update split: option.split)

lemma cleanupEntry_distinct:
  "distinct (map fst store) \<Longrightarrow> distinct (map fst (cleanupEntry now tw store entry))"
  by (cases entry) (simp add: cleanupEntry_def Let_def distinct_update distinct_delete)

lemma foldl_cleanupEntry_distinct:
  "distinct (map fst store) \<Longrightarrow> distinct (map fst (foldl (cleanupEntry now tw) store es))"
  by (induction es arbitrary: store) (simp_all add: cleanupEntry_distinct)

lemma step_distinct:
  "distinct (map fst (requests this)) \<Longrightarrow> distinct (map fst (requests (step this x)))"
  by (cases x)
    (simp_all add: acceptRequest_distinct cleanupStaleRequests_def stopCleanupTask_def
      foldl_cleanupEntry_distinct)

subsection \<open>The sweep loop computes \<open>sweepSpec\<close>\<close>

text \<open>
  The loop invariant: with the entries in \<open>pre\<close> done and those in \<open>es\<close> still to visit,
  the store is \<open>pre @ es\<close>.
\<close>

lemma foldl_cleanupEntry:
  "distinct (map fst (pre @ es)) \<Longrightarrow>
   foldl (cleanupEntry now tw) (pre @ es) es = pre @ sweepSpec now tw es"
proof (induction es arbitrary: pre)
  case Nil
  then show ?case by (simp add: sweepSpec_def)
next
  case (Cons e es)
  obtain k l where e: "e = (k, l)" by (cases e)
  let ?p = "dropWhile (\<lambda>t. jsMinus now t \<ge> tw) l"
  from Cons.prems e have nk: "k \<notin> fst ` set pre" "k \<notin> fst ` set es"
    by auto
  show ?case
  proof (cases "?p = []")
    case True
    with nk e have "cleanupEntry now tw (pre @ e # es) e = pre @ es"
      by (simp add: cleanupEntry_def Let_def pruneFront_dropWhile update_middle delete_middle)
    moreover from Cons.prems have "distinct (map fst (pre @ es))" by simp
    ultimately show ?thesis
      using Cons.IH [of pre] True e by (simp add: sweepSpec_def)
  next
    case False
    with nk e have "cleanupEntry now tw (pre @ e # es) e = (pre @ [(k, ?p)]) @ es"
      by (auto simp add: cleanupEntry_def Let_def pruneFront_dropWhile update_middle)
    moreover from Cons.prems e have "distinct (map fst ((pre @ [(k, ?p)]) @ es))" by simp
    ultimately show ?thesis
      using Cons.IH [of "pre @ [(k, ?p)]"] False e by (simp add: sweepSpec_def)
  qed
qed

lemma cleanupStaleRequests_requests:
  "distinct (map fst (requests this)) \<Longrightarrow>
   requests (cleanupStaleRequests this now) = sweepSpec now (timeWindow this) (requests this)"
  using foldl_cleanupEntry [of "[]" "requests this" now "timeWindow this"]
  by (simp add: cleanupStaleRequests_def)

lemma map_of_sweepSpec:
  "distinct (map fst es) \<Longrightarrow>
   map_of (sweepSpec now tw es) k =
     (case map_of es k of
        None \<Rightarrow> None
      | Some l \<Rightarrow> (if dropWhile (\<lambda>t. jsMinus now t \<ge> tw) l = [] then None
                   else Some (dropWhile (\<lambda>t. jsMinus now t \<ge> tw) l)))"
proof (induction es)
  case Nil
  then show ?case by (simp add: sweepSpec_def)
next
  case (Cons e es)
  obtain k' l where e: "e = (k', l)" by (cases e)
  from Cons.prems e have "map_of es k' = None"
    by (simp add: map_of_eq_None_iff)
  with Cons e show ?case
    by (auto simp: sweepSpec_def)
qed

lemma set_sweepSpec:
  "(k, l') \<in> set (sweepSpec now tw es) \<Longrightarrow>
   l' \<noteq> [] \<and> (\<exists>l. (k, l) \<in> set es \<and> l' = dropWhile (\<lambda>t. jsMinus now t \<ge> tw) l)"
  by (auto simp: sweepSpec_def)

lemma sweepSpec_keys:
  "fst ` set (sweepSpec now tw es) \<subseteq> fst ` set es"
  by (auto simp: sweepSpec_def image_iff) force

subsection \<open>No empty log is stored\<close>

lemma acceptRequest_nonempty:
  assumes "0 < maxRequests this" and "logsNonEmpty this"
  shows "logsNonEmpty (snd (acceptRequest this ident ts))"
proof -
  have "l' \<noteq> []" if "(k', l') \<in> set (requests (snd (acceptRequest this ident ts)))" for k' l'
  proof (cases "ts < 0")
    case True
    with that assms(2) show ?thesis
      by (auto simp: acceptRequest_def logsNonEmpty_def)
  next
    case False
    show ?thesis
    proof (cases "map_of (requests this) ident")
      case None
      with False that have "(k', l') \<in> set (AList.update ident [ts] (requests this))"
        by (simp add: acceptRequest_def)
      from set_update_cases [OF this] assms(2) show ?thesis
        by (auto simp: logsNonEmpty_def)
    next
      case (Some l)
      let ?p = "pruneFront ts (timeWindow this) l"
      show ?thesis
      proof (cases "real (length ?p) \<ge> maxRequests this")
        case True
        with assms(1) have ne: "?p \<noteq> []" by auto
        from False Some True that have "(k', l') \<in> set (AList.update ident ?p (requests this))"
          by (simp add: acceptRequest_def)
        from set_update_cases [OF this] assms(2) ne show ?thesis
          by (auto simp: logsNonEmpty_def)
      next
        case admit: False
        with False Some that
        have "(k', l') \<in> set (AList.update ident (?p @ [ts]) (requests this))"
          by (simp add: acceptRequest_def)
        from set_update_cases [OF this] assms(2) show ?thesis
          by (auto simp: logsNonEmpty_def)
      qed
    qed
  qed
  then show ?thesis by (auto simp: logsNonEmpty_def)
qed

lemma cleanupStaleRequests_nonempty:
  "distinct (map fst (requests this)) \<Longrightarrow> logsNonEmpty (cleanupStaleRequests this now)"
  by (auto simp: logsNonEmpty_def cleanupStaleRequests_requests dest: set_sweepSpec)

lemma constructor_wellFormed: "constructor tw mr = Inr s \<Longrightarrow> wellFormed s"
  by (auto simp: wellFormed_def logsNonEmpty_def dest: constructor_Inr)

lemma step_wellFormed: "wellFormed this \<Longrightarrow> wellFormed (step this x)"
proof (cases x)
  case (Accept ident ts)
  assume "wellFormed this"
  with Accept show ?thesis
    by (simp add: wellFormed_def acceptRequest_config acceptRequest_distinct
        acceptRequest_nonempty)
next
  case (Sweep now)
  assume "wellFormed this"
  with Sweep show ?thesis
    using step_config [of this x] step_distinct [of this x]
    by (simp add: wellFormed_def cleanupStaleRequests_nonempty)
next
  case Stop
  assume "wellFormed this"
  with Stop show ?thesis
    by (simp add: wellFormed_def stopCleanupTask_def logsNonEmpty_def)
qed

lemma run_wellFormed: "wellFormed this \<Longrightarrow> wellFormed (run this ops)"
  unfolding run_def by (induction ops arbitrary: this) (simp_all add: step_wellFormed)

subsection \<open>No log is longer than an integer \<open>maxRequests\<close>\<close>

lemma acceptRequest_bounded:
  assumes "maxRequests this \<in> \<int>" and "0 < maxRequests this" and "logsBounded this"
  shows "logsBounded (snd (acceptRequest this ident ts))"
proof -
  let ?N = "maxRequests this"
  have "real (length l') \<le> ?N"
    if "(k', l') \<in> set (requests (snd (acceptRequest this ident ts)))" for k' l'
  proof (cases "ts < 0")
    case True
    with that assms(3) show ?thesis
      by (auto simp: acceptRequest_def logsBounded_def)
  next
    case False
    show ?thesis
    proof (cases "map_of (requests this) ident")
      case None
      with False that have "(k', l') \<in> set (AList.update ident [ts] (requests this))"
        by (simp add: acceptRequest_def)
      from set_update_cases [OF this] assms(3) Ints_pos_ge_1 [OF assms(1,2)] show ?thesis
        by (auto simp: logsBounded_def)
    next
      case (Some l)
      let ?p = "pruneFront ts (timeWindow this) l"
      from Some have "(ident, l) \<in> set (requests this)" by (rule map_of_SomeD)
      with assms(3) have l: "real (length l) \<le> ?N" by (auto simp: logsBounded_def)
      have "length ?p \<le> length l"
        by (simp add: pruneFront_dropWhile length_dropWhile_le)
      with l have p: "real (length ?p) \<le> ?N" by linarith
      show ?thesis
      proof (cases "real (length ?p) \<ge> ?N")
        case True
        from False Some True that have "(k', l') \<in> set (AList.update ident ?p (requests this))"
          by (simp add: acceptRequest_def)
        from set_update_cases [OF this] assms(3) p show ?thesis
          by (auto simp: logsBounded_def)
      next
        case admit: False
        then have "real (length ?p) + 1 \<le> ?N"
          using Ints_less_Suc [OF assms(1), of "length ?p"] by simp
        then have p1: "real (length (?p @ [ts])) \<le> ?N" by simp
        from False Some admit that
        have "(k', l') \<in> set (AList.update ident (?p @ [ts]) (requests this))"
          by (simp add: acceptRequest_def)
        from set_update_cases [OF this] assms(3) p1 show ?thesis
          by (auto simp: logsBounded_def)
      qed
    qed
  qed
  then show ?thesis by (auto simp: logsBounded_def acceptRequest_config)
qed

lemma cleanupStaleRequests_bounded:
  assumes "distinct (map fst (requests this))" and "logsBounded this"
  shows "logsBounded (cleanupStaleRequests this now)"
proof -
  have "real (length l') \<le> maxRequests this"
    if "(k, l') \<in> set (sweepSpec now (timeWindow this) (requests this))" for k l'
  proof -
    from set_sweepSpec [OF that] obtain l where
      l: "(k, l) \<in> set (requests this)" "l' = dropWhile (\<lambda>t. jsMinus now t \<ge> timeWindow this) l"
      by blast
    from l(1) assms(2) have "real (length l) \<le> maxRequests this"
      by (auto simp: logsBounded_def)
    moreover from l(2) have "length l' \<le> length l" by (simp add: length_dropWhile_le)
    ultimately show ?thesis by linarith
  qed
  with assms(1) show ?thesis
    using step_config [of this "Sweep now"]
    by (auto simp: logsBounded_def cleanupStaleRequests_requests)
qed

lemma step_bounded:
  assumes "maxRequests this \<in> \<int>" and "wellFormed this" and "logsBounded this"
  shows "logsBounded (step this x)"
proof (cases x)
  case (Accept ident ts)
  with assms show ?thesis by (simp add: wellFormed_def acceptRequest_bounded)
next
  case (Sweep now)
  with assms show ?thesis by (simp add: wellFormed_def cleanupStaleRequests_bounded)
next
  case Stop
  with assms show ?thesis by (simp add: stopCleanupTask_def logsBounded_def)
qed

lemma run_bounded:
  "maxRequests this \<in> \<int> \<Longrightarrow> wellFormed this \<Longrightarrow> logsBounded this \<Longrightarrow>
   logsBounded (run this ops)"
proof (induction ops arbitrary: this)
  case Nil
  then show ?case by (simp add: run_def)
next
  case (Cons x ops)
  from Cons.prems have m: "maxRequests (step this x) \<in> \<int>" by (simp add: step_config)
  from Cons.prems have w: "wellFormed (step this x)" by (simp add: step_wellFormed)
  from Cons.prems have b: "logsBounded (step this x)" by (rule step_bounded)
  from m w b have "logsBounded (run (step this x) ops)" by (rule Cons.IH)
  then show ?case by (simp add: run_def)
qed

lemma constructor_bounded: "constructor tw mr = Inr s \<Longrightarrow> logsBounded s"
  by (auto simp: logsBounded_def dest: constructor_Inr)

lemma storedLog_bounded:
  "logsBounded this \<Longrightarrow> 0 \<le> maxRequests this \<Longrightarrow>
   real (length (storedLog this ident)) \<le> maxRequests this"
  by (auto simp: storedLog_def logsBounded_def split: option.split dest: map_of_SomeD)

text \<open>
  Every log stored in a run from a constructed instance with an integer
  \<^verbatim>\<open>maxRequests\<close> has at most that many entries.
\<close>

lemma reachable_log_length:
  assumes "constructor tw mr = Inr s0" and "mr \<in> \<int>"
  shows "real (length (storedLog (run s0 ops) ident)) \<le> mr"
proof -
  from assms(1) have c: "0 < mr" "maxRequests s0 = mr" "wellFormed s0" "logsBounded s0"
    by (auto dest: constructor_Inr constructor_wellFormed constructor_bounded)
  from c(2) have mr: "maxRequests (run s0 ops) = mr" by (simp add: run_config)
  from c assms(2) have "logsBounded (run s0 ops)" by (simp add: run_bounded)
  with mr c(1) show ?thesis
    using storedLog_bounded [of "run s0 ops" ident] by simp
qed

section \<open>The claims\<close>

subsection \<open>The usage example\<close>

text \<open>
  C1. A limiter constructed with window 5000 and at most 2 requests answers the calls
  (A, 1000), (A, 2000), (A, 3000), (B, 3000), (A, 6000), (A, 7000), (A, 8000), made in
  this order, with true, true, false, true, true, true, false.
\<close>

theorem usage_example:
  "(case constructor 5000 2 of
      Inl e \<Rightarrow> Inl e
    | Inr limiter \<Rightarrow> Inr (acceptAll limiter
        [(''userA'', 1000), (''userA'', 2000), (''userA'', 3000), (''userB'', 3000),
         (''userA'', 6000), (''userA'', 7000), (''userA'', 8000)]))
   = Inr [True, True, False, True, True, True, False]"
  by (simp add: constructor_def startCleanupTask_def acceptRequest_dropWhile jsMinus_int)

subsection \<open>The half-open window\<close>



text \<open>
  The difference is the rounded one. The doubles written \<^verbatim>\<open>0.6\<close> and \<^verbatim>\<open>0.1\<close> in JavaScript
  are \<open>5404319552844595 / 2^53\<close> and \<open>3602879701896397 / 2^55\<close>; their exact difference
  is \<open>1/2 - 2^(- 55)\<close>, half way between two doubles, and \<^verbatim>\<open>0.6 - 0.1\<close> is \<open>1/2\<close>. With a
  window of \<open>1/2\<close> and at most one request, the entry \<^verbatim>\<open>0.1\<close> is exactly one window old
  for the program at \<^verbatim>\<open>0.6\<close>: it is pruned and the second call is admitted.
\<close>

lemma rounded_difference_at_the_boundary:
  "isDouble (5404319552844595 / 9007199254740992)
   \<and> isDouble (3602879701896397 / 36028797018963968)
   \<and> isDouble (1 / 2)
   \<and> 5404319552844595 / 9007199254740992 - 3602879701896397 / 36028797018963968
        = (1 / 2 - 1 / 2 ^ 55 :: real)
   \<and> jsMinus (5404319552844595 / 9007199254740992) (3602879701896397 / 36028797018963968)
        = 1 / 2
   \<and> (case constructor (1 / 2) 1 of
         Inl e \<Rightarrow> Inl e
       | Inr limiter \<Rightarrow> Inr (acceptAll limiter
           [(''u'', 3602879701896397 / 36028797018963968),
            (''u'', 5404319552844595 / 9007199254740992)]))
      = Inr [True, True]"
proof -
  have a: "isDouble (5404319552844595 / 9007199254740992)"
    using toDouble_binade [of "- 1" "5404319552844595 / 9007199254740992"]
    by (simp add: isDouble_def rne_def Let_def powr_neg_numeral)
  have b: "isDouble (3602879701896397 / 36028797018963968)"
    using toDouble_binade [of "- 4" "3602879701896397 / 36028797018963968"]
    by (simp add: isDouble_def rne_def Let_def powr_neg_numeral)
  have c: "isDouble (1 / 2)"
    using toDouble_binade [of "- 1" "1 / 2"]
    by (simp add: isDouble_def rne_def Let_def powr_neg_numeral)
  have d: "5404319552844595 / 9007199254740992 - 3602879701896397 / 36028797018963968
        = (18014398509481983 / 36028797018963968 :: real)"
    by simp
  have e: "toDouble (18014398509481983 / 36028797018963968) = 1 / 2"
    using toDouble_binade [of "- 2" "18014398509481983 / 36028797018963968"]
    by (simp add: rne_def Let_def powr_neg_numeral)
  from d e have j: "jsMinus (5404319552844595 / 9007199254740992)
      (3602879701896397 / 36028797018963968) = 1 / 2"
    by (simp only: jsMinus_def)
  have r: "(case constructor (1 / 2) 1 of
         Inl e \<Rightarrow> Inl e
       | Inr limiter \<Rightarrow> Inr (acceptAll limiter
           [(''u'', 3602879701896397 / 36028797018963968),
            (''u'', 5404319552844595 / 9007199254740992)]))
      = Inr [True, True]"
    by (simp add: constructor_def startCleanupTask_def acceptRequest_dropWhile j)
  from a b c d j r show ?thesis by simp
qed

text \<open>
  The same happens with whole numbers beyond \<open>2^53\<close>: \<open>2^53 + 3\<close> is not a double, and
  \<^verbatim>\<open>(2^53 + 4) - 1\<close> is \<open>2^53 + 4\<close>. With a window of \<open>2^53 + 4\<close> the entry \<open>1\<close> is pruned
  at the timestamp \<open>2^53 + 4\<close>.
\<close>

lemma rounded_difference_of_large_integers:
  "isDouble 9007199254740996
   \<and> jsMinus 9007199254740996 1 = 9007199254740996
   \<and> pruneFront 9007199254740996 9007199254740996 [1] = []"
proof -
  have a: "toDouble 9007199254740996 = 9007199254740996"
    using toDouble_binade [of 53 9007199254740996]
    by (simp add: rne_def Let_def)
  have "(9007199254740996::real) < 2 ^ 54" by simp
  also have "(2::real) ^ 54 < 2 ^ 1024" by (rule power_strict_increasing) simp_all
  finally have b: "isDouble 9007199254740996" using a by (simp add: isDouble_def)
  have "toDouble 9007199254740995 = 9007199254740996"
    using toDouble_binade [of 53 9007199254740995]
    by (simp add: rne_def Let_def)
  then have c: "jsMinus 9007199254740996 1 = 9007199254740996"
    by (simp add: jsMinus_def)
  from b c show ?thesis by (simp add: pruneFront_dropWhile)
qed

subsection \<open>The first request of a client\<close>

text \<open>
  C4. For a client with no entry in the store and a non-negative timestamp,
  \<^verbatim>\<open>acceptRequest\<close> returns true and creates the client's log with that single timestamp,
  as the last entry of the store. The code does not read \<^verbatim>\<open>maxRequests\<close> on this path,
  so this holds for every limiter, those with \<open>maxRequests \<ge> 1\<close> among them.
\<close>

theorem first_request_admitted:
  assumes "0 \<le> ts" and "map_of (requests this) ident = None"
  shows "acceptRequest this ident ts
           = (True, this\<lparr>requests := requests this @ [(ident, [ts])]\<rparr>)
         \<and> map_of (requests (snd (acceptRequest this ident ts))) ident = Some [ts]
         \<and> getCurrentRequestCount (snd (acceptRequest this ident ts)) ident = 1"
proof -
  from assms have a: "acceptRequest this ident ts
      = (True, this\<lparr>requests := AList.update ident [ts] (requests this)\<rparr>)"
    by (simp add: acceptRequest_def)
  from assms(2) have u: "AList.update ident [ts] (requests this) = requests this @ [(ident, [ts])]"
    by (rule update_absent)
  have m: "map_of (AList.update ident [ts] (requests this)) ident = Some [ts]"
    by (simp add: update_conv')
  from a m have "getCurrentRequestCount (snd (acceptRequest this ident ts)) ident = 1"
    by (simp add: getCurrentRequestCount_def)
  with a m u show ?thesis by simp
qed

theorem first_request_admitted_witness:
  "(0::real) \<le> 3000
   \<and> map_of (requests (limiter1\<lparr>requests := [(''userA'', [1000, 2000])]\<rparr>)) ''userB'' = None
   \<and> acceptRequest (limiter1\<lparr>requests := [(''userA'', [1000, 2000])]\<rparr>) ''userB'' 3000
      = (True, limiter1\<lparr>requests := [(''userA'', [1000, 2000]), (''userB'', [3000])]\<rparr>)"
proof -
  have h1: "(0::real) \<le> 3000" by simp
  have h2: "map_of (requests (limiter1\<lparr>requests := [(''userA'', [1000, 2000])]\<rparr>)) ''userB''
      = None"
    by simp
  from first_request_admitted [OF h1 h2] h1 h2 show ?thesis by simp
qed

subsection \<open>Negative timestamps\<close>

text \<open>
  C5. For every client id and every negative timestamp, \<^verbatim>\<open>acceptRequest\<close> returns false,
  writes one warning to the console and changes nothing else: the store is the same,
  the number of tracked clients is the same, and a client that was not tracked is still
  not tracked.
\<close>

theorem negative_timestamp_rejected:
  assumes "ts < 0"
  shows "acceptRequest this ident ts
           = (False, this\<lparr>console := console this @
                [Warn ''Timestamp cannot be negative. Request rejected for user:'' ident]\<rparr>)
         \<and> requests (snd (acceptRequest this ident ts)) = requests this
         \<and> getTrackedUserCount (snd (acceptRequest this ident ts)) = getTrackedUserCount this
         \<and> (map_of (requests this) ident = None \<longrightarrow>
              map_of (requests (snd (acceptRequest this ident ts))) ident = None)"
  using assms by (simp add: acceptRequest_def getTrackedUserCount_def)

theorem negative_timestamp_rejected_witness:
  "(- 5 :: real) < 0
   \<and> map_of (requests limiter1) ''X'' = None
   \<and> fst (acceptRequest limiter1 ''X'' (- 5)) = False
   \<and> map_of (requests (snd (acceptRequest limiter1 ''X'' (- 5)))) ''X'' = None
   \<and> getTrackedUserCount (snd (acceptRequest limiter1 ''X'' (- 5))) = 0
   \<and> console (snd (acceptRequest limiter1 ''X'' (- 5)))
      = [Warn ''Timestamp cannot be negative. Request rejected for user:'' ''X'']"
proof -
  have h: "(- 5 :: real) < 0" by simp
  have e: "requests limiter1 = []" "console limiter1 = []"
    by (simp_all add: limiter1_def)
  from negative_timestamp_rejected [OF h, of limiter1 "''X''"] h e
  show ?thesis by (simp add: getTrackedUserCount_def)
qed

subsection \<open>Construction\<close>

text \<open>
  C6. Constructing a limiter with \<open>windowSize \<le> 0\<close> or \<open>maxRequests \<le> 0\<close> fails with the
  error the constructor throws and yields no instance; so do \<open>construct(0, 5)\<close> and
  \<open>construct(1000, 0)\<close>. No value is clamped: whenever an instance is returned, it holds
  the two arguments as they were given.
\<close>

theorem constructor_rejects_nonpositive:
  "(tw \<le> 0 \<or> mr \<le> 0 \<longrightarrow>
      constructor tw mr = Inl (Error ''timeWindow and maxRequests must be positive numbers.'')
      \<and> (\<nexists>s. constructor tw mr = Inr s))
   \<and> (\<forall>s. constructor tw mr = Inr s \<longrightarrow> timeWindow s = tw \<and> maxRequests s = mr)
   \<and> constructor 0 5 = Inl (Error ''timeWindow and maxRequests must be positive numbers.'')
   \<and> constructor 1000 0 = Inl (Error ''timeWindow and maxRequests must be positive numbers.'')"
  by (auto simp: constructor_def startCleanupTask_def)

theorem constructor_rejects_nonpositive_witness:
  "((- 1 :: real) \<le> 0 \<or> (5::real) \<le> 0)
   \<and> constructor (- 1) 5 = Inl (Error ''timeWindow and maxRequests must be positive numbers.'')
   \<and> (\<nexists>s. constructor (- 1) 5 = Inr s)
   \<and> constructor 5000 2 = Inr limiter1
   \<and> timeWindow limiter1 = 5000 \<and> maxRequests limiter1 = 2"
proof -
  have c: "constructor 5000 2 = Inr limiter1" by (rule constructor_limiter1)
  from constructor_rejects_nonpositive [of "- 1" 5] constructor_rejects_nonpositive [of 5000 2] c
  show ?thesis by simp
qed

subsection \<open>Clients do not affect each other\<close>

text \<open>
  C9. For distinct client ids \<open>a\<close> and \<open>b\<close>, a call \<^verbatim>\<open>acceptRequest(a, t)\<close> leaves the log
  of \<open>b\<close> as it was, and with it the request count of \<open>b\<close>, the answer to a following
  call for \<open>b\<close> and the log that call leaves for \<open>b\<close>.
\<close>

theorem clients_independent:
  assumes "a \<noteq> b"
  shows "map_of (requests (snd (acceptRequest this a t))) b = map_of (requests this) b
         \<and> getCurrentRequestCount (snd (acceptRequest this a t)) b
             = getCurrentRequestCount this b
         \<and> fst (acceptRequest (snd (acceptRequest this a t)) b t')
             = fst (acceptRequest this b t')
         \<and> map_of (requests (snd (acceptRequest (snd (acceptRequest this a t)) b t'))) b
             = map_of (requests (snd (acceptRequest this b t'))) b"
proof -
  let ?s = "snd (acceptRequest this a t)"
  from assms have m: "map_of (requests ?s) b = map_of (requests this) b"
    by (simp add: acceptRequest_def Let_def update_conv' split: option.split)
  have c: "timeWindow ?s = timeWindow this" "maxRequests ?s = maxRequests this"
    by (simp_all add: acceptRequest_config)
  from m have "getCurrentRequestCount ?s b = getCurrentRequestCount this b"
    by (simp add: getCurrentRequestCount_def)
  moreover from m c have "fst (acceptRequest ?s b t') = fst (acceptRequest this b t')"
    by (simp add: acceptRequest_def Let_def split: option.split)
  moreover from m c have "map_of (requests (snd (acceptRequest ?s b t'))) b
      = map_of (requests (snd (acceptRequest this b t'))) b"
    by (simp add: acceptRequest_def Let_def update_conv' split: option.split)
  ultimately show ?thesis using m by simp
qed

theorem clients_independent_witness:
  "''userA'' \<noteq> ''userB''
   \<and> map_of (requests (snd (acceptRequest
        (limiter1\<lparr>requests := [(''userA'', [1000, 2000]), (''userB'', [3000])]\<rparr>)
        ''userA'' 6000))) ''userB''
      = Some [3000]
   \<and> fst (acceptRequest (snd (acceptRequest
        (limiter1\<lparr>requests := [(''userA'', [1000, 2000]), (''userB'', [3000])]\<rparr>)
        ''userA'' 6000)) ''userB'' 7000)
      = True"
proof -
  have h: "''userA'' \<noteq> ''userB''" by simp
  from clients_independent [OF h, of
      "limiter1\<lparr>requests := [(''userA'', [1000, 2000]), (''userB'', [3000])]\<rparr>" 6000 7000] h
  show ?thesis by (simp add: acceptRequest_dropWhile jsMinus_int limiter1_def)
qed

subsection \<open>The quota\<close>

text \<open>
  C2, as amended. Take a limiter constructed with window \<open>W\<close> and an integer
  \<open>maxRequests = N\<close>, any sequence of operations on it, any client and any instant
  \<open>now\<close>. The log stored for the client then holds at most \<open>N\<close> timestamps \<open>t\<close> with
  \<open>now - t < W\<close>, whether the difference is the one the program computes or the exact
  one; so does the pruned log that a call of \<^verbatim>\<open>acceptRequest\<close> at \<open>now\<close> compares with
  \<open>N\<close>, and so does the log that call leaves behind.
\<close>

theorem quota_at_decision:
  assumes "constructor tw mr = Inr s0" and "mr \<in> \<int>"
  shows "real (windowCount now tw (storedLog (run s0 ops) ident)) \<le> mr
         \<and> real (windowCount now tw (pruneFront now tw (storedLog (run s0 ops) ident))) \<le> mr
         \<and> real (windowCount now tw
              (storedLog (snd (acceptRequest (run s0 ops) ident now)) ident)) \<le> mr
         \<and> real (exactWindowCount now tw (storedLog (run s0 ops) ident)) \<le> mr
         \<and> real (exactWindowCount now tw
              (pruneFront now tw (storedLog (run s0 ops) ident))) \<le> mr
         \<and> real (exactWindowCount now tw
              (storedLog (snd (acceptRequest (run s0 ops) ident now)) ident)) \<le> mr"
proof -
  have len: "real (length (storedLog (run s0 os) ident)) \<le> mr" for os
    by (rule reachable_log_length [OF assms])
  have cnt: "real (windowCount now tw l) \<le> mr \<and> real (exactWindowCount now tw l) \<le> mr"
    if "real (length l) \<le> mr" for l
    using that windowCount_le_length [of now tw l] by linarith
  have after: "snd (acceptRequest (run s0 ops) ident now) = run s0 (ops @ [Accept ident now])"
    by (simp add: run_snoc)
  have "real (length (pruneFront now tw (storedLog (run s0 ops) ident))) \<le> mr"
    using len [of ops] length_pruneFront [of now tw "storedLog (run s0 ops) ident"]
    by linarith
  from cnt [OF this] cnt [OF len [of ops]] cnt [OF len [of "ops @ [Accept ident now]"]]
  show ?thesis unfolding after by blast
qed

theorem quota_at_decision_witness:
  "constructor 5000 2 = Inr limiter1 \<and> (2::real) \<in> \<int>
   \<and> windowCount 6000 5000 (storedLog (run limiter1
        [Accept ''userA'' 1000, Accept ''userA'' 2000, Accept ''userA'' 3000]) ''userA'') = 1
   \<and> real (windowCount 6000 5000 (storedLog (run limiter1
        [Accept ''userA'' 1000, Accept ''userA'' 2000, Accept ''userA'' 3000]) ''userA'')) \<le> 2
   \<and> real (exactWindowCount 6000 5000 (storedLog (snd (acceptRequest (run limiter1
        [Accept ''userA'' 1000, Accept ''userA'' 2000, Accept ''userA'' 3000]) ''userA'' 6000))
        ''userA'')) \<le> 2"
proof -
  have c: "constructor 5000 2 = Inr limiter1" by (rule constructor_limiter1)
  have i: "(2::real) \<in> \<int>" by simp
  have v: "windowCount 6000 5000 (storedLog (run limiter1
        [Accept ''userA'' 1000, Accept ''userA'' 2000, Accept ''userA'' 3000]) ''userA'') = 1"
    by (simp add: run_def limiter1_def acceptRequest_dropWhile jsMinus_int storedLog_def
        windowCount_def)
  from quota_at_decision [OF c i, of 6000
      "[Accept ''userA'' 1000, Accept ''userA'' 2000, Accept ''userA'' 3000]" "''userA''"] c i v
  show ?thesis by simp
qed

text \<open>
  C2 as it is worded, for every \<open>maxRequests\<close>, does not hold: the constructor accepts
  \<open>maxRequests = 3/2\<close>, the second request of a client is admitted at length 1, and at
  the third call, at 3000, the log holds 2 timestamps inside the window of 5000.
\<close>

theorem quota_fractional_counterexample:
  "constructor 5000 (3 / 2) = Inr (limiter1\<lparr>maxRequests := 3 / 2\<rparr>)
   \<and> storedLog (run (limiter1\<lparr>maxRequests := 3 / 2\<rparr>)
        [Accept ''userA'' 1000, Accept ''userA'' 2000]) ''userA'' = [1000, 2000]
   \<and> windowCount 3000 5000 (storedLog (run (limiter1\<lparr>maxRequests := 3 / 2\<rparr>)
        [Accept ''userA'' 1000, Accept ''userA'' 2000]) ''userA'') = 2
   \<and> exactWindowCount 3000 5000 (storedLog (run (limiter1\<lparr>maxRequests := 3 / 2\<rparr>)
        [Accept ''userA'' 1000, Accept ''userA'' 2000]) ''userA'') = 2
   \<and> \<not> real (windowCount 3000 5000 (storedLog (run (limiter1\<lparr>maxRequests := 3 / 2\<rparr>)
        [Accept ''userA'' 1000, Accept ''userA'' 2000]) ''userA'')) \<le> 3 / 2"
proof -
  have l: "storedLog (run (limiter1\<lparr>maxRequests := 3 / 2\<rparr>)
        [Accept ''userA'' 1000, Accept ''userA'' 2000]) ''userA'' = [1000, 2000]"
    by (simp add: run_def limiter1_def acceptRequest_dropWhile jsMinus_int storedLog_def)
  have c: "constructor 5000 (3 / 2) = Inr (limiter1\<lparr>maxRequests := 3 / 2\<rparr>)"
    by (simp add: constructor_def startCleanupTask_def limiter1_def)
  from c show ?thesis unfolding l
    by (simp add: windowCount_def exactWindowCount_def jsMinus_int)
qed

subsection \<open>Stored logs are never empty\<close>

text \<open>
  C8. In every state reached from a constructed limiter by a sequence of
  \<^verbatim>\<open>acceptRequest\<close> calls, sweeps and stops of the timer, every entry of the store has a
  non-empty log: it is the log the map returns for its key, and the request count of
  that client is positive.
\<close>

theorem stored_logs_nonempty:
  assumes "constructor tw mr = Inr s0"
    and "(ident, l) \<in> set (requests (run s0 ops))"
  shows "l \<noteq> [] \<and> map_of (requests (run s0 ops)) ident = Some l
         \<and> 0 < getCurrentRequestCount (run s0 ops) ident"
proof -
  let ?s = "run s0 ops"
  from assms(1) have "wellFormed ?s" by (simp add: constructor_wellFormed run_wellFormed)
  then have d: "distinct (map fst (requests ?s))" and n: "logsNonEmpty ?s"
    by (simp_all add: wellFormed_def)
  from n assms(2) have l: "l \<noteq> []" by (auto simp: logsNonEmpty_def)
  from d assms(2) have m: "map_of (requests ?s) ident = Some l" by simp
  from l m show ?thesis by (simp add: getCurrentRequestCount_def)
qed

theorem stored_logs_nonempty_witness:
  "constructor 5000 2 = Inr limiter1
   \<and> (''userB'', [3000]) \<in> set (requests (run limiter1
        [Accept ''userA'' 1000, Accept ''userB'' 3000, Sweep 7000, Stop]))
   \<and> [3000 :: real] \<noteq> []
   \<and> 0 < getCurrentRequestCount (run limiter1
        [Accept ''userA'' 1000, Accept ''userB'' 3000, Sweep 7000, Stop]) ''userB''"
proof -
  have c: "constructor 5000 2 = Inr limiter1" by (rule constructor_limiter1)
  have m: "(''userB'', [3000]) \<in> set (requests (run limiter1
        [Accept ''userA'' 1000, Accept ''userB'' 3000, Sweep 7000, Stop]))"
    by (simp add: run_def limiter1_def acceptRequest_dropWhile jsMinus_int cleanupStaleRequests_def
        cleanupEntry_def pruneFront_dropWhile jsMinus_int stopCleanupTask_def)
  from stored_logs_nonempty [OF c m] c m show ?thesis by simp
qed

subsection \<open>Stored logs are never longer than \<open>maxRequests\<close>\<close>

text \<open>
  C10. For a limiter constructed with an integer \<open>maxRequests = N\<close> (then \<open>N \<ge> 1\<close>), in
  every state reached by a sequence of \<^verbatim>\<open>acceptRequest\<close> calls, sweeps and stops of the
  timer, every stored log has at most \<open>N\<close> entries, stale ones included, and so the
  request count of every client is at most \<open>N\<close>.
\<close>

theorem stored_log_length_bounded:
  assumes "constructor tw mr = Inr s0" and "mr \<in> \<int>"
    and "(ident, l) \<in> set (requests (run s0 ops))"
  shows "1 \<le> mr \<and> real (length l) \<le> mr
         \<and> real (getCurrentRequestCount (run s0 ops) ident) \<le> mr"
proof -
  let ?s = "run s0 ops"
  from assms(1) have c: "0 < mr" "wellFormed s0"
    by (auto dest: constructor_Inr constructor_wellFormed)
  then have "distinct (map fst (requests ?s))"
    using run_wellFormed [of s0 ops] by (simp add: wellFormed_def)
  with assms(3) have "map_of (requests ?s) ident = Some l" by simp
  then have s: "storedLog ?s ident = l" by (simp add: storedLog_def)
  with reachable_log_length [OF assms(1,2), of ops ident] have l: "real (length l) \<le> mr"
    by simp
  from s have "getCurrentRequestCount ?s ident = length l"
    by (simp add: storedLog_def getCurrentRequestCount_def split: option.splits)
  with l Ints_pos_ge_1 [OF assms(2) c(1)] show ?thesis by simp
qed

theorem stored_log_length_bounded_witness:
  "constructor 5000 2 = Inr limiter1 \<and> (2::real) \<in> \<int>
   \<and> (''userA'', [1000, 2000]) \<in> set (requests (run limiter1
        [Accept ''userA'' 1000, Accept ''userA'' 2000, Accept ''userA'' 3000]))
   \<and> real (length [1000 :: real, 2000]) \<le> 2
   \<and> real (getCurrentRequestCount (run limiter1
        [Accept ''userA'' 1000, Accept ''userA'' 2000, Accept ''userA'' 3000]) ''userA'') \<le> 2"
proof -
  have c: "constructor 5000 2 = Inr limiter1" by (rule constructor_limiter1)
  have i: "(2::real) \<in> \<int>" by simp
  have m: "(''userA'', [1000, 2000]) \<in> set (requests (run limiter1
        [Accept ''userA'' 1000, Accept ''userA'' 2000, Accept ''userA'' 3000]))"
    by (simp add: run_def limiter1_def acceptRequest_dropWhile jsMinus_int)
  from stored_log_length_bounded [OF c i m] c i m show ?thesis by simp
qed

subsection \<open>The sweep\<close>

text \<open>
  C7. One sweep at the instant \<open>now\<close>, on any state reached from a constructed limiter,
  prunes the log of every tracked client by the half-open rule of the admission check
  (the leading entries \<open>t\<close> with \<open>now - t \<ge> windowSize\<close> go, the difference being the
  double the program computes) and deletes the entry of a client whose log is then
  empty; the other entries keep their order. Hence a client with \<open>now > t + windowSize\<close>,
  in exact terms, for every entry \<open>t\<close> of its log is not in the store after the sweep:
  its request count is 0, the number of tracked clients counts the keys of the store, and
  that number has gone down if the client was tracked before. Here \<open>windowSize\<close> is a
  double, as is every number the constructor can be given.
\<close>

theorem sweep_prunes_and_deletes:
  assumes "constructor tw mr = Inr s0"
    and "this = run s0 ops"
    and "this' = cleanupStaleRequests this now"
  shows "requests this' = sweepSpec now tw (requests this)
         \<and> map_of (requests this') ident =
             (case map_of (requests this) ident of
                None \<Rightarrow> None
              | Some l \<Rightarrow> (if dropWhile (\<lambda>t. jsMinus now t \<ge> tw) l = [] then None
                           else Some (dropWhile (\<lambda>t. jsMinus now t \<ge> tw) l)))
         \<and> getTrackedUserCount this' = card (fst ` set (requests this'))
         \<and> (isDouble tw \<and> (\<forall>t \<in> set (storedLog this ident). now > t + tw) \<longrightarrow>
              ident \<notin> fst ` set (requests this')
              \<and> getCurrentRequestCount this' ident = 0
              \<and> (ident \<in> fst ` set (requests this) \<longrightarrow>
                   getTrackedUserCount this' < getTrackedUserCount this))"
proof -
  from assms(1,2) have w: "wellFormed this"
    by (simp add: constructor_wellFormed run_wellFormed)
  then have d: "distinct (map fst (requests this))" by (simp add: wellFormed_def)
  from assms(1,2) have tw: "timeWindow this = tw"
    using constructor_Inr [of tw mr s0] by (simp add: run_config)
  from d tw assms(3) have r: "requests this' = sweepSpec now tw (requests this)"
    by (simp add: cleanupStaleRequests_requests)
  from d have m: "map_of (requests this') ident =
             (case map_of (requests this) ident of
                None \<Rightarrow> None
              | Some l \<Rightarrow> (if dropWhile (\<lambda>t. jsMinus now t \<ge> tw) l = [] then None
                           else Some (dropWhile (\<lambda>t. jsMinus now t \<ge> tw) l)))"
    unfolding r by (rule map_of_sweepSpec)
  from d assms(3) have d': "distinct (map fst (requests this'))"
    using step_distinct [of this "Sweep now"] by simp
  have count: "getTrackedUserCount s = card (fst ` set (requests s))"
    if "distinct (map fst (requests s))" for s :: RateLimiter
    using distinct_card [OF that] by (simp add: getTrackedUserCount_def)
  have stale: "ident \<notin> fst ` set (requests this')
              \<and> getCurrentRequestCount this' ident = 0
              \<and> (ident \<in> fst ` set (requests this) \<longrightarrow>
                   getTrackedUserCount this' < getTrackedUserCount this)"
    if a: "isDouble tw \<and> (\<forall>t \<in> set (storedLog this ident). now > t + tw)"
  proof -
    have n: "map_of (requests this') ident = None"
    proof (cases "map_of (requests this) ident")
      case None
      with m show ?thesis by simp
    next
      case (Some l)
      have "tw \<le> jsMinus now t" if "t \<in> set l" for t
      proof -
        from that a Some have "tw \<le> now - t" by (auto simp: storedLog_def)
        with a show ?thesis by (simp add: jsMinus_ge)
      qed
      then have "dropWhile (\<lambda>t. jsMinus now t \<ge> tw) l = []" by simp
      with m Some show ?thesis by simp
    qed
    then have k: "ident \<notin> fst ` set (requests this')" by (simp add: map_of_eq_None_iff)
    from n have g: "getCurrentRequestCount this' ident = 0"
      by (simp add: getCurrentRequestCount_def)
    have "getTrackedUserCount this' < getTrackedUserCount this"
      if t: "ident \<in> fst ` set (requests this)"
    proof -
      from k have "fst ` set (requests this') \<subseteq> fst ` set (requests this) - {ident}"
        using sweepSpec_keys [of now tw "requests this"] unfolding r by auto
      then have "card (fst ` set (requests this')) \<le> card (fst ` set (requests this) - {ident})"
        by (simp add: card_mono)
      also have "\<dots> < card (fst ` set (requests this))"
        by (rule card_Diff1_less) (simp_all add: t)
      finally show ?thesis by (simp add: count [OF d] count [OF d'])
    qed
    with k g show ?thesis by simp
  qed
  from r m count [OF d'] stale show ?thesis by blast
qed

theorem sweep_prunes_and_deletes_witness:
  "constructor 5000 2 = Inr limiter1
   \<and> isDouble 5000
   \<and> storedLog (run limiter1
          [Accept ''userA'' 1000, Accept ''userA'' 2000, Accept ''userB'' 3000]) ''userA''
      = [1000, 2000]
   \<and> (7500::real) > 1000 + 5000 \<and> (7500::real) > 2000 + 5000
   \<and> ''userA'' \<in> fst ` set (requests (run limiter1
          [Accept ''userA'' 1000, Accept ''userA'' 2000, Accept ''userB'' 3000]))
   \<and> requests (cleanupStaleRequests (run limiter1
          [Accept ''userA'' 1000, Accept ''userA'' 2000, Accept ''userB'' 3000]) 7500)
      = [(''userB'', [3000])]
   \<and> ''userA'' \<notin> fst ` set (requests (cleanupStaleRequests (run limiter1
          [Accept ''userA'' 1000, Accept ''userA'' 2000, Accept ''userB'' 3000]) 7500))
   \<and> getTrackedUserCount (cleanupStaleRequests (run limiter1
          [Accept ''userA'' 1000, Accept ''userA'' 2000, Accept ''userB'' 3000]) 7500)
      < getTrackedUserCount (run limiter1
          [Accept ''userA'' 1000, Accept ''userA'' 2000, Accept ''userB'' 3000])"
proof -
  let ?ops = "[Accept ''userA'' 1000, Accept ''userA'' 2000, Accept ''userB'' 3000]"
  have c: "constructor 5000 2 = Inr limiter1" by (rule constructor_limiter1)
  have s: "requests (run limiter1 ?ops) = [(''userA'', [1000, 2000]), (''userB'', [3000])]"
    by (simp add: run_def limiter1_def acceptRequest_dropWhile jsMinus_int)
  have i: "isDouble 5000" by (simp add: isDouble_int)
  have h: "\<forall>t \<in> set (storedLog (run limiter1 ?ops) ''userA''). 7500 > t + 5000"
    by (simp add: storedLog_def s)
  have t: "''userA'' \<in> fst ` set (requests (run limiter1 ?ops))"
    by (simp add: s)
  let ?s' = "cleanupStaleRequests (run limiter1 ?ops) 7500"
  from sweep_prunes_and_deletes [OF c refl refl, of ?ops 7500 "''userA''"] i h t
  have r: "requests ?s' = sweepSpec 7500 5000 (requests (run limiter1 ?ops))"
    and k: "''userA'' \<notin> fst ` set (requests ?s')"
    and lt: "getTrackedUserCount ?s' < getTrackedUserCount (run limiter1 ?ops)"
    by blast+
  from r have r': "requests ?s' = [(''userB'', [3000])]"
    unfolding s by (simp add: sweepSpec_def jsMinus_int)
  have l: "storedLog (run limiter1 ?ops) ''userA'' = [1000, 2000]"
    by (simp add: storedLog_def s)
  from c i l t r' k lt show ?thesis by simp
qed

end
